theory Spec2Isabelle
  imports Main
begin

section \<open>Strings\<close>

text \<open>
  A JavaScript string is a sequence of code units; \<open>length\<close> counts them. The model
  uses \<open>string\<close> (a list of 8-bit characters), so it covers the code units below 256.
\<close>

definition isWhiteSpace :: "char \<Rightarrow> bool" where
  \<comment> \<open>what \<open>String.prototype.trim\<close> and the regular expression class \<open>\s\<close> remove:
      TAB, LF, VT, FF, CR, SPACE and NBSP (the white space and line terminators below 256)\<close>
  "isWhiteSpace c \<longleftrightarrow> of_char c \<in> {9, 10, 11, 12, 13, 32, 160 :: nat}"

definition trim :: "string \<Rightarrow> string" where
  "trim s = rev (dropWhile isWhiteSpace (rev (dropWhile isWhiteSpace s)))"

section \<open>Chunker: \<open>splitTextIntoChunks\<close>\<close>

definition terminator :: "char \<Rightarrow> bool" where
  \<comment> \<open>the character class \<open>[.!?]\<close>\<close>
  "terminator c \<longleftrightarrow> c = CHR ''.'' \<or> c = CHR ''!'' \<or> c = CHR ''?''"

text \<open>
  One attempt of the pattern \<open>[^.!?]+[.!?]+\<close> at the start of \<open>s\<close>: the longest
  run of non-terminators, which must not be empty, then the longest run of terminators,
  which must not be empty either. The two classes are complements of each other, so giving
  back characters of the first run never helps: the attempt is deterministic.
  The result is the matched text and the rest of the input.
\<close>

definition matchAt :: "string \<Rightarrow> (string \<times> string) option" where
  "matchAt s =
     (let body = takeWhile (\<lambda>c. \<not> terminator c) s;
          rest = dropWhile (\<lambda>c. \<not> terminator c) s
      in if body = [] \<or> rest = [] then None
         else Some (body @ takeWhile terminator rest, dropWhile terminator rest))"

lemma matchAt_shorter: "matchAt s = Some (m, r) \<Longrightarrow> length r < length s"
proof -
  assume a: "matchAt s = Some (m, r)"
  let ?rest = "dropWhile (\<lambda>c. \<not> terminator c) s"
  from a have b: "takeWhile (\<lambda>c. \<not> terminator c) s \<noteq> []" and r: "r = dropWhile terminator ?rest"
    by (auto simp: matchAt_def Let_def split: if_splits)
  have "length r \<le> length ?rest" unfolding r by (rule length_dropWhile_le)
  moreover have "length ?rest < length s"
    using b by (metis length_greater_0_conv length_append less_add_same_cancel2
        takeWhile_dropWhile_id add.commute)
  ultimately show ?thesis by simp
qed

text \<open>
  The global match \<open>text.match(/[^.!?]+[.!?]+/g)\<close>: the pattern is tried at the current
  position; a match is collected and the search goes on behind it, a failure moves the
  position one character on.
\<close>

function matchAll :: "string \<Rightarrow> string list" where
  "matchAll s =
     (if s = [] then []
      else case matchAt s of
             Some (m, r) \<Rightarrow> m # matchAll r
           | None \<Rightarrow> matchAll (tl s))"
  by pat_completeness auto
termination
  by (relation "measure length") (auto dest: matchAt_shorter)

declare matchAll.simps [simp del]

definition js_match :: "string \<Rightarrow> string list option" where
  \<comment> \<open>\<open>String.prototype.match\<close> with a global pattern answers \<open>null\<close> when nothing matches\<close>
  "js_match text = (let ms = matchAll text in if ms = [] then None else Some ms)"

definition sentences :: "string \<Rightarrow> string list" where
  \<comment> \<open>\<open>text.match(...) || []\<close>\<close>
  "sentences text = (case js_match text of None \<Rightarrow> [] | Some ms \<Rightarrow> ms)"

text \<open>
  The \<open>for\<close> loop over the sentences; the state is the array \<open>chunks\<close> and the buffer
  \<open>currentChunk\<close>.
\<close>

fun chunkLoop :: "int \<Rightarrow> string list \<Rightarrow> string list \<Rightarrow> string \<Rightarrow> string list \<times> string" where
  "chunkLoop chunkSize [] chunks currentChunk = (chunks, currentChunk)"
| "chunkLoop chunkSize (sentence # rest) chunks currentChunk =
     (if int (length currentChunk) + int (length sentence) > chunkSize
      then chunkLoop chunkSize rest (chunks @ [trim currentChunk]) sentence
      else chunkLoop chunkSize rest chunks (currentChunk @ '' '' @ sentence))"

definition splitTextIntoChunks :: "string \<Rightarrow> int \<Rightarrow> string list" where
  "splitTextIntoChunks text chunkSize =
     (case chunkLoop chunkSize (sentences text) [] [] of
        (chunks, currentChunk) \<Rightarrow>
          if currentChunk \<noteq> [] then chunks @ [trim currentChunk] else chunks)"


section \<open>Topic trees\<close>

text \<open>
  A topic node as \<open>JSON.parse\<close> delivers it and as the merger rebuilds it. The prompt asks
  for \<open>title\<close>, \<open>content\<close> and \<open>children\<close>; \<open>id\<close> and \<open>level\<close> exist only
  where the merger (or the model's answer) has put them, and the code itself reckons with a
  missing \<open>children\<close> (\<open>topic.children?.forEach\<close>, \<open>child.children || []\<close>).
  A missing property (\<open>undefined\<close>) is \<open>None\<close>.
\<close>

datatype topic =
  Topic (tid: "string option") (title: string) (content: string) (level: "int option")
        (children: "topic list option")

datatype error = Error (name: string) (message: string)

definition toLowerChar :: "char \<Rightarrow> char" where
  \<comment> \<open>the lower-case mapping on the code units below 256: A-Z and the accented capitals
      0xC0-0xDE without the multiplication sign 0xD7\<close>
  "toLowerChar c =
     (let n = of_char c :: nat
      in if (65 \<le> n \<and> n \<le> 90) \<or> (192 \<le> n \<and> n \<le> 222 \<and> n \<noteq> 215)
         then char_of (n + 32) else c)"

definition toLowerCase :: "string \<Rightarrow> string" where
  "toLowerCase s = map toLowerChar s"

fun showNat :: "nat \<Rightarrow> string" where
  \<comment> \<open>the decimal digits an integer gets inside a template literal\<close>
  "showNat n =
     (if n < 10 then [char_of (48 + n)]
      else showNat (n div 10) @ [char_of (48 + n mod 10)])"

declare showNat.simps [simp del]

definition orEmpty :: "topic list option \<Rightarrow> topic list" where
  \<comment> \<open>\<open>cs || []\<close>\<close>
  "orEmpty cs = (case cs of None \<Rightarrow> [] | Some xs \<Rightarrow> xs)"

definition setContent :: "topic \<Rightarrow> string \<Rightarrow> topic" where
  \<comment> \<open>\<open>node.content = c\<close>\<close>
  "setContent node c = Topic (tid node) (title node) c (level node) (children node)"

definition pushChild :: "topic \<Rightarrow> topic \<Rightarrow> topic" where
  \<comment> \<open>\<open>node.children.push(c)\<close>, for a node that has its array of children\<close>
  "pushChild node c =
     Topic (tid node) (title node) (content node) (level node) (Some (orEmpty (children node) @ [c]))"

section \<open>Tree merger: \<open>mergeTopics\<close>\<close>

definition mergeChild :: "topic \<Rightarrow> topic \<Rightarrow> topic" where
  \<comment> \<open>the body of the inner \<open>forEach\<close>\<close>
  "mergeChild merged child =
     (let existingChild =
            find (\<lambda>c. toLowerCase (title c) = toLowerCase (title child))
                 (orEmpty (children merged))
      in case existingChild of
           Some _ \<Rightarrow> merged
         | None \<Rightarrow>
             pushChild merged
               (Topic (Some (''topic-'' @ showNat (length (orEmpty (children merged)) + 1)))
                      (title child) (content child) (Some 1)
                      (Some (orEmpty (children child)))))"

definition mergeTopic :: "topic \<Rightarrow> topic \<Rightarrow> topic" where
  \<comment> \<open>the body of the outer \<open>forEach\<close>; the empty string is the falsy content\<close>
  "mergeTopic merged topic =
     (let merged1 = (if content merged = [] then setContent merged (content topic) else merged)
      in case children topic of
           None \<Rightarrow> merged1
         | Some cs \<Rightarrow> foldl mergeChild merged1 cs)"

definition mergeTopics :: "topic list \<Rightarrow> topic" where
  "mergeTopics topics =
     foldl mergeTopic (Topic (Some ''root'') ''Main Topic'' [] (Some 0) (Some [])) topics"

section \<open>Graph layout: \<open>hierarchyToMindMap\<close>\<close>

text \<open>
  Coordinates are JavaScript numbers; all of them are sums and products of integers, which
  the model computes in \<open>int\<close>.
\<close>

record position =
  pos_x :: int
  pos_y :: int

record node_data =
  label :: string
  data_level :: "int option"
  data_content :: string
  isExpanded :: bool

record mm_node =
  node_id :: "string option"
  node_type :: string
  node_position :: position
  node_data :: node_data

record edge_style =
  stroke :: string
  strokeWidth :: int

record mm_edge =
  edge_id :: string
  edge_source :: string
  edge_target :: "string option"
  edge_type :: string
  animated :: bool
  edge_style :: edge_style

record graph =
  nodes :: "mm_node list"
  edges :: "mm_edge list"

definition showId :: "string option \<Rightarrow> string" where
  \<comment> \<open>a value inside a template literal: a missing one prints as \<open>undefined\<close>\<close>
  "showId i = (case i of None \<Rightarrow> ''undefined'' | Some s \<Rightarrow> s)"

definition nodeData :: "topic \<Rightarrow> int \<Rightarrow> int \<Rightarrow> mm_node" where
  "nodeData node x y =
     \<lparr>node_id = tid node, node_type = ''custom'',
      node_position = \<lparr>pos_x = x, pos_y = y\<rparr>,
      node_data = \<lparr>label = title node, data_level = level node,
                   data_content = content node, isExpanded = True\<rparr>\<rparr>"

definition edgeData :: "string \<Rightarrow> topic \<Rightarrow> mm_edge" where
  "edgeData parentId node =
     \<lparr>edge_id = parentId @ ''-'' @ showId (tid node),
      edge_source = parentId, edge_target = tid node,
      edge_type = ''smoothstep'', animated = True,
      edge_style = \<lparr>stroke = (if level node = Some 1 then ''#10b981'' else ''#f97316''),
                     strokeWidth = (if level node = Some 1 then 3 else 2)\<rparr>\<rparr>"

definition truthy :: "string option \<Rightarrow> bool" where
  \<comment> \<open>\<open>if (s)\<close> for a string that may be missing: neither \<open>undefined\<close> nor empty\<close>
  "truthy s = (case s of None \<Rightarrow> False | Some v \<Rightarrow> v \<noteq> [])"

definition childSpacing :: int where
  "childSpacing = 200"

text \<open>
  \<open>processNode\<close> appends to the two arrays it closes over; here they are the graph that is
  passed along. Reading \<open>length\<close> of a missing \<open>children\<close> throws a \<open>TypeError\<close>, after the
  node (and its edge) have been pushed. \<open>forEachChild\<close> is the \<open>forEach\<close> over the
  children, with its index.
\<close>

function processNode :: "topic \<Rightarrow> string option \<Rightarrow> int \<Rightarrow> int \<Rightarrow> graph \<Rightarrow> error + graph"
  and forEachChild ::
    "topic list \<Rightarrow> nat \<Rightarrow> string option \<Rightarrow> int \<Rightarrow> int \<Rightarrow> graph \<Rightarrow> error + graph"
where
  "processNode node parentId x y g =
     (let g1 = g\<lparr>nodes := nodes g @ [nodeData node x y]\<rparr>;
          g2 = (if truthy parentId
                then g1\<lparr>edges := edges g1 @ [edgeData (showId parentId) node]\<rparr>
                else g1)
      in case children node of
           None \<Rightarrow>
             Inl (Error ''TypeError'' ''Cannot read properties of undefined (reading 'length')'')
         | Some cs \<Rightarrow>
             forEachChild cs 0 (tid node) (x - (int (length cs) - 1) * childSpacing div 2) y g2)"
| "forEachChild [] index parentId startX y g = Inr g"
| "forEachChild (child # rest) index parentId startX y g =
     (case processNode child parentId (startX + int index * childSpacing) (y + 150) g of
        Inl e \<Rightarrow> Inl e
      | Inr g' \<Rightarrow> forEachChild rest (index + 1) parentId startX y g')"
  by pat_completeness auto
termination
proof (relation "measure (\<lambda>a. case a of Inl (node, _) \<Rightarrow> size node
                                       | Inr (cs, _) \<Rightarrow> size_list size cs)", goal_cases)
  case (2 node parentId x y g g1 g2 cs)
  then show ?case by (cases node) simp
qed simp_all

declare processNode.simps [simp del]

definition hierarchyToMindMap :: "topic \<Rightarrow> error + graph" where
  "hierarchyToMindMap hierarchy = processNode hierarchy None 0 0 \<lparr>nodes = [], edges = []\<rparr>"

section \<open>Topic extractor\<close>

subsection \<open>\<open>extractJsonFromMarkdown\<close>\<close>

definition fence :: string where
  "fence = [CHR 0x60, CHR 0x60, CHR 0x60]"

fun afterFence :: "string \<Rightarrow> string option" where
  \<comment> \<open>the text behind the leftmost fence\<close>
  "afterFence [] = None"
| "afterFence (c # cs) =
     (if take 3 (c # cs) = fence then Some (drop 3 (c # cs)) else afterFence cs)"

definition skipJsonTag :: "string \<Rightarrow> string" where
  \<comment> \<open>\<open>(?:json)?\<close> under the flag \<open>i\<close>\<close>
  "skipJsonTag s = (if toLowerCase (take 4 s) = ''json'' then drop 4 s else s)"

definition closesHere :: "string \<Rightarrow> bool" where
  \<comment> \<open>\<open>\s*\<close> and the closing fence match at the start of \<open>s\<close>\<close>
  "closesHere s \<longleftrightarrow> take 3 (dropWhile isWhiteSpace s) = fence"

fun lazyCapture :: "string \<Rightarrow> string option" where
  \<comment> \<open>the group \<open>([\s\S]*?)\<close>: the shortest text behind which the pattern can close\<close>
  "lazyCapture s =
     (if closesHere s then Some []
      else case s of [] \<Rightarrow> None | c # cs \<Rightarrow> map_option ((#) c) (lazyCapture cs))"

declare lazyCapture.simps [simp del]

text \<open>
  The group of the first match of the fenced pattern. The search is deterministic: the
  tag and the white space behind the opening fence contain no backquote and no closing
  position, so giving them back finds no match that keeping them misses, and a match that
  starts at a later fence implies one that starts at the leftmost.
\<close>

definition fencedMatch :: "string \<Rightarrow> string option" where
  "fencedMatch text =
     (case afterFence text of
        None \<Rightarrow> None
      | Some s \<Rightarrow> lazyCapture (dropWhile isWhiteSpace (skipJsonTag s)))"

definition braceMatch :: "string \<Rightarrow> string option" where
  \<comment> \<open>\<open>/{[\s\S]*}/\<close>: from the leftmost opening brace to the last closing brace behind it\<close>
  "braceMatch text =
     (let s = dropWhile (\<lambda>c. c \<noteq> CHR 0x7B) text;
          m = rev (dropWhile (\<lambda>c. c \<noteq> CHR 0x7D) (rev s))
      in if m = [] then None else Some m)"

definition extractJsonFromMarkdown :: "string \<Rightarrow> string" where
  "extractJsonFromMarkdown text =
     (case fencedMatch text of
        Some m \<Rightarrow> m
      | None \<Rightarrow> (case braceMatch text of Some b \<Rightarrow> b | None \<Rightarrow> text))"

subsection \<open>The outside world\<close>

text \<open>
  The calls that leave the process are recorded in a trace. What the browser and the
  language model answer is not the program's to decide: the answers are functions of the
  calls made so far and of the argument, and a thrown exception is \<open>Inl\<close>.
  \<open>JSON.parse\<close> answers \<open>None\<close> where it throws; a text that parses is taken to be
  a topic object, with a title and a content that are strings. Writing to the console is
  left out.
\<close>

datatype call = Browse string | Generate string

record world =
  GEMINI_API_KEY :: "string option"
  pageText :: "call list \<Rightarrow> string \<Rightarrow> error + string"
  generateContent :: "call list \<Rightarrow> string \<Rightarrow> error + string"
  JSON_parse :: "string \<Rightarrow> topic option"

definition extractContentFromURL ::
  "world \<Rightarrow> string \<Rightarrow> call list \<Rightarrow> (error + string) \<times> call list" where
  "extractContentFromURL w url tr = (pageText w tr url, tr @ [Browse url])"

definition summaryPrompt :: "string \<Rightarrow> string" where
  "summaryPrompt text =
     ''Please provide a concise summary of the following text, highlighting the main topics and key points:''
     @ [CHR 0x0A, CHR 0x0A] @ text"

definition generateSummary ::
  "world \<Rightarrow> string \<Rightarrow> call list \<Rightarrow> (error + string) \<times> call list" where
  "generateSummary w text tr =
     (let prompt = summaryPrompt text
      in (generateContent w tr prompt, tr @ [Generate prompt]))"

definition topicPromptHead :: string where
  "topicPromptHead = ''
You are an expert at breaking down information into mind maps.

Given the following text, extract the main topic, and then break it down into 3-7 key subtopics. For each subtopic, if possible, break it down further into sub-subtopics. 

Return the result as a valid JSON object in this format (no explanation, just JSON):

{
  \"title\": \"Main Topic\",
  \"content\": \"Short summary of the main topic\",
  \"children\": [
    {
      \"title\": \"Subtopic 1\",
      \"content\": \"Summary of subtopic 1\",
      \"children\": [
        {
          \"title\": \"Sub-subtopic 1\",
          \"content\": \"Summary of sub-subtopic 1\",
          \"children\": []
        }
      ]
    },
    {
      \"title\": \"Subtopic 2\",
      \"content\": \"Summary of subtopic 2\",
      \"children\": []
    }
  ]
}

Text to analyze:
''"

definition topicPromptTail :: string where
  "topicPromptTail = ''

Return only the JSON, no explanation or extra text.
      ''"

definition topicPrompt :: "string \<Rightarrow> string" where
  "topicPrompt chunk = topicPromptHead @ chunk @ topicPromptTail"

subsection \<open>\<open>extractTopics\<close>\<close>

text \<open>
  The loop over the chunks: one call of the model per chunk; an answer that does not parse
  is logged and skipped, an exception of the model ends the loop.
\<close>

fun extractLoop ::
  "world \<Rightarrow> string list \<Rightarrow> topic list \<Rightarrow> call list \<Rightarrow> (error + topic list) \<times> call list" where
  "extractLoop w [] topics tr = (Inr topics, tr)"
| "extractLoop w (chunk # rest) topics tr =
     (let prompt = topicPrompt chunk
      in case generateContent w tr prompt of
           Inl e \<Rightarrow> (Inl e, tr @ [Generate prompt])
         | Inr raw \<Rightarrow>
             (case JSON_parse w (extractJsonFromMarkdown raw) of
                Some topicData \<Rightarrow> extractLoop w rest (topics @ [topicData]) (tr @ [Generate prompt])
              | None \<Rightarrow> extractLoop w rest topics (tr @ [Generate prompt])))"

definition extractTopics ::
  "world \<Rightarrow> string \<Rightarrow> call list \<Rightarrow> (error + topic) \<times> call list" where
  "extractTopics w text tr =
     (case extractLoop w (splitTextIntoChunks text 1000) [] tr of
        (Inl e, tr') \<Rightarrow> (Inl e, tr')
      | (Inr topics, tr') \<Rightarrow> (Inr (mergeTopics topics), tr'))"

section \<open>Pipeline orchestrator: \<open>POST /api/process\<close>\<close>

record request =
  req_content :: "string option"
  req_type :: "string option"

datatype body =
  ErrorBody (err: string) (details: "string option") (errtype: "string option")
| MindMap graph

record response =
  status :: nat
  body :: body

definition failed :: "error \<Rightarrow> response" where
  \<comment> \<open>the \<open>catch\<close> of the handler\<close>
  "failed e =
     \<lparr>status = 500,
      body = ErrorBody ''Failed to process content'' (Some (message e)) (Some (name e))\<rparr>"

definition pipeline :: "world \<Rightarrow> string \<Rightarrow> string option \<Rightarrow> response \<times> call list" where
  \<comment> \<open>the handler behind its two guards, for the content and the type of the request\<close>
  "pipeline w input type =
     (case (if type = Some ''url'' then extractContentFromURL w input []
            else (Inr input, [])) of
        (Inl e, tr) \<Rightarrow> (failed e, tr)
      | (Inr text, tr) \<Rightarrow>
          (case generateSummary w text tr of
             (Inl e, tr1) \<Rightarrow> (failed e, tr1)
           | (Inr summary, tr1) \<Rightarrow>
               (case extractTopics w text tr1 of
                  (Inl e, tr2) \<Rightarrow> (failed e, tr2)
                | (Inr topics, tr2) \<Rightarrow>
                    (case hierarchyToMindMap (setContent topics summary) of
                       Inl e \<Rightarrow> (failed e, tr2)
                     | Inr mindMap \<Rightarrow> (\<lparr>status = 200, body = MindMap mindMap\<rparr>, tr2)))))"

definition process :: "world \<Rightarrow> request \<Rightarrow> response \<times> call list" where
  \<comment> \<open>the response and the outside calls made for it\<close>
  "process w req =
     (case req_content req of
        None \<Rightarrow> (\<lparr>status = 400, body = ErrorBody ''Content is required'' None None\<rparr>, [])
      | Some input \<Rightarrow>
          if input = [] then
            (\<lparr>status = 400, body = ErrorBody ''Content is required'' None None\<rparr>, [])
          else if \<not> truthy (GEMINI_API_KEY w) then
            (\<lparr>status = 500,
              body = ErrorBody ''Server configuration error''
                       (Some ''API key is not configured'') None\<rparr>,
             [])
          else pipeline w input (req_type req))"

section \<open>The claims' vocabulary\<close>

text \<open>
  The definitions of this section are not translations of code: they say in the words of
  the specification what the merger and the layout are compared with.
\<close>

abbreviation (input) key :: "topic \<Rightarrow> string" where
  \<comment> \<open>what the merger compares: the title without regard to case\<close>
  "key c \<equiv> toLowerCase (title c)"

definition allChildren :: "topic list \<Rightarrow> topic list" where
  \<comment> \<open>the direct children of the input trees, in the order in which the merger meets them\<close>
  "allChildren topics = concat (map (\<lambda>t. orEmpty (children t)) topics)"

fun firstSeen :: "topic list \<Rightarrow> topic list" where
  \<comment> \<open>first occurrence wins: a later entry whose title equals an earlier one, case aside,
      is dropped\<close>
  "firstSeen [] = []"
| "firstSeen (c # cs) = c # filter (\<lambda>d. key d \<noteq> key c) (firstSeen cs)"

definition relabel :: "nat \<Rightarrow> topic \<Rightarrow> topic" where
  \<comment> \<open>a surviving child: a new id, level 1, its own title, content and children\<close>
  "relabel n c =
     Topic (Some (''topic-'' @ showNat n)) (title c) (content c) (Some 1)
           (Some (orEmpty (children c)))"

fun numbered :: "nat \<Rightarrow> topic list \<Rightarrow> topic list" where
  "numbered n [] = []"
| "numbered n (c # cs) = relabel n c # numbered (Suc n) cs"

definition addChild :: "topic list \<Rightarrow> topic \<Rightarrow> topic list" where
  \<comment> \<open>one step of the inner loop, seen on the merged children alone\<close>
  "addChild ks c = (if key c \<in> key ` set ks then ks else ks @ [relabel (length ks + 1) c])"

text \<open>
  The layout in the words of the specification: a node, then its children from left to
  right, each with its subtree; child \<open>i\<close> of \<open>k\<close> children is placed at
  \<open>parentX - (k - 1) * 100 + i * 200\<close> and \<open>parentY + 150\<close>.
\<close>

function preorder :: "topic \<Rightarrow> int \<Rightarrow> int \<Rightarrow> (topic \<times> int \<times> int) list"
  and preorderChildren ::
    "topic list \<Rightarrow> nat \<Rightarrow> nat \<Rightarrow> int \<Rightarrow> int \<Rightarrow> (topic \<times> int \<times> int) list"
where
  "preorder node x y =
     (node, x, y)
     # preorderChildren (orEmpty (children node)) 0 (length (orEmpty (children node))) x y"
| "preorderChildren [] i k parentX parentY = []"
| "preorderChildren (child # rest) i k parentX parentY =
     preorder child (parentX - (int k - 1) * 100 + int i * 200) (parentY + 150)
     @ preorderChildren rest (Suc i) k parentX parentY"
  by pat_completeness auto
termination
proof (relation "measure (\<lambda>a. case a of Inl (node, _) \<Rightarrow> size node
                                       | Inr (cs, _) \<Rightarrow> size_list size cs)", goal_cases)
  case (2 node x y)
  then show ?case by (cases node; cases "children node") (simp_all add: orEmpty_def)
qed simp_all

declare preorder.simps [simp del]

fun complete :: "topic \<Rightarrow> bool" where
  \<comment> \<open>every node of the tree has its sequence of children, as a \<open>TopicNode\<close> has\<close>
  "complete (Topic i t c l ch) =
     (case ch of None \<Rightarrow> False | Some cs \<Rightarrow> (\<forall>c\<in>set cs. complete c))"

fun parentsIdentified :: "topic \<Rightarrow> bool" where
  \<comment> \<open>every node that has a child has an id that is neither missing nor empty\<close>
  "parentsIdentified (Topic i t c l ch) =
     (case ch of
        None \<Rightarrow> True
      | Some cs \<Rightarrow> (cs = [] \<or> truthy i) \<and> (\<forall>c\<in>set cs. parentsIdentified c))"

definition solid :: "string \<Rightarrow> bool" where
  \<comment> \<open>a string with a character that trimming keeps\<close>
  "solid s \<longleftrightarrow> (\<exists>c\<in>set s. \<not> isWhiteSpace c)"

definition readNat :: "string \<Rightarrow> nat" where
  \<comment> \<open>the number a string of digits stands for\<close>
  "readNat s = foldl (\<lambda>a c. a * 10 + (of_char c - 48)) 0 s"

fun joinBlank :: "string list \<Rightarrow> string" where
  \<comment> \<open>strings joined by one blank between two of them\<close>
  "joinBlank [] = []"
| "joinBlank [s] = s"
| "joinBlank (s # t # ss) = s @ '' '' @ joinBlank (t # ss)"

definition buffered :: "string \<Rightarrow> string list \<Rightarrow> bool" where
  \<comment> \<open>the buffer of the loop holds the sentences of a group: joined, with or without the
      blank that the loop puts in front of the first sentence of a text\<close>
  "buffered cur g \<longleftrightarrow>
     (g = [] \<and> cur = []) \<or> (g \<noteq> [] \<and> (cur = joinBlank g \<or> cur = CHR '' '' # joinBlank g))"

text \<open>The trees of the examples.\<close>

definition chainTopic :: topic where
  \<comment> \<open>an answer of the model with a subtopic, a sub-subtopic and one level more\<close>
  "chainTopic =
     Topic None ''Main'' ''m'' None
       (Some [Topic None ''A'' ''a'' None
                (Some [Topic None ''B'' ''b'' None
                         (Some [Topic None ''C'' ''c'' None (Some [])])])])"

definition forkTopic :: topic where
  \<comment> \<open>an answer of the model with one subtopic and two sub-subtopics\<close>
  "forkTopic =
     Topic None ''Main'' ''m'' None
       (Some [Topic None ''A'' ''a'' None
                (Some [Topic None ''B'' ''b'' None (Some []),
                       Topic None ''C'' ''c'' None (Some [])])])"

definition firstTopic :: topic where
  \<comment> \<open>the two trees of the specification's example of a merge\<close>
  "firstTopic =
     Topic None ''T1'' '''' None
       (Some [Topic None ''A'' ''one'' None None, Topic None ''B'' ''two'' None (Some [])])"

definition secondTopic :: topic where
  "secondTopic =
     Topic None ''T2'' ''X'' None
       (Some [Topic None ''a'' ''three'' None (Some [Topic None ''deep'' '''' None None]),
              Topic None ''C'' ''four'' None None])"

definition pairTopic :: topic where
  \<comment> \<open>a root with two children\<close>
  "pairTopic =
     Topic (Some ''root'') ''Main Topic'' '''' (Some 0)
       (Some [Topic (Some ''topic-1'') ''L'' '''' (Some 1) (Some []),
              Topic (Some ''topic-2'') ''R'' '''' (Some 1) (Some [])])"





definition unconfiguredWorld :: world where
  \<comment> \<open>the same without the key\<close>
  "unconfiguredWorld =
     \<lparr>GEMINI_API_KEY = None,
      pageText = (\<lambda>tr url. Inr ''Page one. Page two.''),
      generateContent = (\<lambda>tr prompt. Inr ''Sorry, no JSON today''),
      JSON_parse = (\<lambda>s. None)\<rparr>"

section \<open>Properties of the chunker\<close>

lemma matchAt_no_terminator:
  "\<forall>c\<in>set s. \<not> terminator c \<Longrightarrow> matchAt s = None"
  by (simp add: matchAt_def Let_def dropWhile_eq_Nil_conv)

lemma matchAll_no_terminator:
  "\<forall>c\<in>set s. \<not> terminator c \<Longrightarrow> matchAll s = []"
proof (induction s)
  case Nil
  show ?case by (simp add: matchAll.simps)
next
  case (Cons a s)
  have "matchAt (a # s) = None" using Cons.prems by (rule matchAt_no_terminator)
  moreover have "matchAll s = []" using Cons by simp
  ultimately show ?case by (subst matchAll.simps) simp
qed

lemma sentences_eq: "sentences text = matchAll text"
  by (simp add: sentences_def js_match_def Let_def)

lemma split_no_terminator:
  "\<forall>c\<in>set text. \<not> terminator c \<Longrightarrow> splitTextIntoChunks text chunkSize = []"
  by (simp add: splitTextIntoChunks_def sentences_eq matchAll_no_terminator)

lemma chunkLoop_fits:
  "int (length cur) + (\<Sum>s\<leftarrow>ss. int (length s) + 1) \<le> n \<Longrightarrow>
   chunkLoop n ss chunks cur = (chunks, cur @ concat (map (\<lambda>s. CHR '' '' # s) ss))"
proof (induction ss arbitrary: cur)
  case Nil
  show ?case by simp
next
  case (Cons s ss)
  have nonneg: "0 \<le> (\<Sum>s\<leftarrow>ss. int (length s) + 1)"
    by (rule sum_list_nonneg) auto
  from Cons.prems nonneg have le: "\<not> int (length cur) + int (length s) > n" by simp
  from Cons.prems have "int (length (cur @ '' '' @ s)) + (\<Sum>s\<leftarrow>ss. int (length s) + 1) \<le> n"
    by simp
  from Cons.IH[OF this] le show ?case by simp
qed


lemma split_one_chunk:
  assumes "sentences text \<noteq> []"
    and "(\<Sum>s\<leftarrow>sentences text. int (length s) + 1) \<le> n"
  shows "length (splitTextIntoChunks text n) = 1"
proof -
  from assms(2) have "chunkLoop n (sentences text) [] [] =
      ([], [] @ concat (map (\<lambda>s. CHR '' '' # s) (sentences text)))"
    by (intro chunkLoop_fits) simp
  moreover from assms(1) have "concat (map (\<lambda>s. CHR '' '' # s) (sentences text)) \<noteq> []"
    by (cases "sentences text") auto
  ultimately show ?thesis by (simp add: splitTextIntoChunks_def)
qed

lemma takeWhile_append_hit:
  "\<exists>x\<in>set xs. \<not> P x \<Longrightarrow> takeWhile P (xs @ ys) = takeWhile P xs"
  by (induction xs) auto

lemma dropWhile_append_hit:
  "\<exists>x\<in>set xs. \<not> P x \<Longrightarrow> dropWhile P (xs @ ys) = dropWhile P xs @ ys"
  by (induction xs) auto

lemma takeWhile_miss: "\<forall>x\<in>set ys. \<not> P x \<Longrightarrow> takeWhile P ys = []"
  by (cases ys) auto

lemma dropWhile_miss: "\<forall>x\<in>set ys. \<not> P x \<Longrightarrow> dropWhile P ys = ys"
  by (cases ys) auto

lemma takeWhile_terminator_fragment:
  assumes "\<forall>c\<in>set frag. \<not> terminator c"
  shows "takeWhile terminator (xs @ frag) = takeWhile terminator xs"
  using assms by (induction xs) (auto simp: takeWhile_miss)

lemma dropWhile_terminator_fragment:
  assumes "\<forall>c\<in>set frag. \<not> terminator c"
  shows "dropWhile terminator (xs @ frag) = dropWhile terminator xs @ frag"
  using assms by (induction xs) (auto simp: dropWhile_miss)

lemma matchAt_fragment:
  assumes frag: "\<forall>c\<in>set frag. \<not> terminator c"
    and ne: "text \<noteq> []" and last: "terminator (last text)"
  shows "matchAt (text @ frag) = map_option (\<lambda>(m, r). (m, r @ frag)) (matchAt text)"
proof -
  from ne last have hit: "\<exists>c\<in>set text. \<not> \<not> terminator c"
    using last_in_set by blast
  then have rest_ne: "dropWhile (\<lambda>c. \<not> terminator c) text \<noteq> []"
    by (simp add: dropWhile_eq_Nil_conv)
  show ?thesis
    using rest_ne hit
    by (auto simp: matchAt_def Let_def takeWhile_append_hit[OF hit] dropWhile_append_hit[OF hit]
        takeWhile_terminator_fragment[OF frag] dropWhile_terminator_fragment[OF frag])
qed

lemma last_dropWhile:
  "dropWhile P xs \<noteq> [] \<Longrightarrow> last (dropWhile P xs) = last xs"
  by (induction xs) (auto split: if_splits)

lemma matchAt_rest_last:
  assumes "matchAt text = Some (m, r)" "r \<noteq> []"
  shows "last r = last text"
proof -
  let ?rest = "dropWhile (\<lambda>c. \<not> terminator c) text"
  from assms have r: "r = dropWhile terminator ?rest"
    by (auto simp: matchAt_def Let_def split: if_splits)
  have "?rest \<noteq> []"
  proof
    assume "?rest = []"
    with r have "r = []" by simp
    with assms(2) show False by simp
  qed
  then have "last ?rest = last text" by (rule last_dropWhile)
  moreover from assms(2) r have "last r = last ?rest" by (simp add: last_dropWhile)
  ultimately show ?thesis by simp
qed

lemma matchAll_fragment:
  assumes frag: "\<forall>c\<in>set frag. \<not> terminator c"
  shows "text = [] \<or> terminator (last text) \<Longrightarrow> matchAll (text @ frag) = matchAll text"
proof (induction "text" rule: matchAll.induct)
  case (1 s)
  show ?case
  proof (cases "s = []")
    case True
    then show ?thesis using frag by (simp add: matchAll_no_terminator)
  next
    case False
    with "1.prems" have lt: "terminator (last s)" by simp
    note mf = matchAt_fragment[OF frag False lt]
    show ?thesis
    proof (cases "matchAt s")
      case None
      have "tl s = [] \<or> terminator (last (tl s))"
        using lt False by (cases s) (auto split: if_splits)
      from "1.IH"(1)[OF False None this] None mf False show ?thesis
        by (simp add: matchAll.simps[of s] matchAll.simps[of "s @ frag"])
    next
      case (Some p)
      obtain m r where p: "p = (m, r)" by (cases p)
      have "r = [] \<or> terminator (last r)"
        using matchAt_rest_last[of s m r] Some p lt by (cases "r = []") simp_all
      from "1.IH"(2)[OF False Some p[symmetric] this] Some p mf False show ?thesis
        by (simp add: matchAll.simps[of s] matchAll.simps[of "s @ frag"])
    qed
  qed
qed

lemma filter_trim: "filter (\<lambda>c. \<not> isWhiteSpace c) (trim s) = filter (\<lambda>c. \<not> isWhiteSpace c) s"
proof -
  have d: "\<And>xs. filter (\<lambda>c. \<not> isWhiteSpace c) (dropWhile isWhiteSpace xs)
                 = filter (\<lambda>c. \<not> isWhiteSpace c) xs"
    by (induct_tac xs) auto
  have "filter (\<lambda>c. \<not> isWhiteSpace c) (trim s)
        = rev (filter (\<lambda>c. \<not> isWhiteSpace c) (dropWhile isWhiteSpace (rev (dropWhile isWhiteSpace s))))"
    by (simp add: trim_def rev_filter)
  also have "\<dots> = filter (\<lambda>c. \<not> isWhiteSpace c) (dropWhile isWhiteSpace s)"
    by (simp add: d rev_filter[symmetric])
  finally show ?thesis by (simp add: d)
qed

lemma space_isWhiteSpace: "isWhiteSpace CHR '' ''"
  by (simp add: isWhiteSpace_def)

lemma chunkLoop_letters:
  "chunkLoop n ss chunks cur = (chunks', cur') \<Longrightarrow>
   filter (\<lambda>c. \<not> isWhiteSpace c) (concat chunks' @ cur')
   = filter (\<lambda>c. \<not> isWhiteSpace c) (concat chunks @ cur @ concat ss)"
proof (induction ss arbitrary: chunks cur)
  case Nil
  then show ?case by simp
next
  case (Cons s ss)
  show ?case
  proof (cases "int (length cur) + int (length s) > n")
    case True
    with Cons.prems have "chunkLoop n ss (chunks @ [trim cur]) s = (chunks', cur')" by simp
    from Cons.IH[OF this] show ?thesis by (simp add: filter_trim)
  next
    case False
    with Cons.prems have "chunkLoop n ss chunks (cur @ '' '' @ s) = (chunks', cur')" by simp
    from Cons.IH[OF this] show ?thesis by (simp add: space_isWhiteSpace)
  qed
qed

lemma split_letters:
  "filter (\<lambda>c. \<not> isWhiteSpace c) (concat (splitTextIntoChunks text n))
   = filter (\<lambda>c. \<not> isWhiteSpace c) (concat (sentences text))"
proof -
  obtain chunks cur where l: "chunkLoop n (sentences text) [] [] = (chunks, cur)"
    by (cases "chunkLoop n (sentences text) [] []")
  from chunkLoop_letters[OF l] l show ?thesis
    by (auto simp: splitTextIntoChunks_def filter_trim)
qed

text \<open>
  Every sentence holds a terminator, so a buffer that holds a sentence is never trimmed to
  nothing: the one chunk that can be empty is a first chunk, pushed before any sentence has
  entered the buffer.
\<close>

lemma terminator_not_space: "terminator c \<Longrightarrow> \<not> isWhiteSpace c"
  by (auto simp: terminator_def isWhiteSpace_def)

lemma matchAt_solid:
  assumes "matchAt s = Some (m, r)"
  shows "solid m"
proof -
  let ?rest = "dropWhile (\<lambda>c. \<not> terminator c) s"
  from assms have m: "m = takeWhile (\<lambda>c. \<not> terminator c) s @ takeWhile terminator ?rest"
    and ne: "?rest \<noteq> []"
    by (auto simp: matchAt_def Let_def split: if_splits)
  from ne have "terminator (hd ?rest)" using hd_dropWhile[of "\<lambda>c. \<not> terminator c" s] by simp
  with ne have "hd ?rest \<in> set (takeWhile terminator ?rest)" by (cases ?rest) auto
  with \<open>terminator (hd ?rest)\<close> show ?thesis
    unfolding solid_def m using terminator_not_space by auto
qed

lemma matchAll_solid: "m \<in> set (matchAll s) \<Longrightarrow> solid m"
proof (induction s rule: matchAll.induct)
  case (1 s)
  show ?case
  proof (cases "s = []")
    case True
    with "1.prems" show ?thesis by (simp add: matchAll.simps)
  next
    case False
    show ?thesis
    proof (cases "matchAt s")
      case None
      with False "1.prems" have "m \<in> set (matchAll (tl s))" by (simp add: matchAll.simps[of s])
      with "1.IH"(1)[OF False None] show ?thesis .
    next
      case (Some p)
      obtain m' r where p: "p = (m', r)" by (cases p)
      with False Some "1.prems" have "m = m' \<or> m \<in> set (matchAll r)"
        by (simp add: matchAll.simps[of s])
      then show ?thesis
      proof
        assume "m = m'"
        with Some p show ?thesis using matchAt_solid by simp
      next
        assume "m \<in> set (matchAll r)"
        with "1.IH"(2)[OF False Some p[symmetric]] show ?thesis .
      qed
    qed
  qed
qed

lemma trim_solid: "solid s \<Longrightarrow> trim s \<noteq> []"
proof
  assume s: "solid s" and "trim s = []"
  then have "filter (\<lambda>c. \<not> isWhiteSpace c) s = []" using filter_trim[of s] by simp
  with s show False by (auto simp: solid_def filter_empty_conv)
qed

lemma chunkLoop_solid:
  "chunkLoop n ss chunks cur = (chunks', cur') \<Longrightarrow> solid cur \<Longrightarrow> \<forall>s\<in>set ss. solid s \<Longrightarrow>
   \<exists>new. chunks' = chunks @ new \<and> [] \<notin> set new \<and> solid cur'"
proof (induction ss arbitrary: chunks cur)
  case Nil
  then show ?case by simp
next
  case (Cons s ss)
  from Cons.prems(3) have s: "solid s" and ss: "\<forall>s\<in>set ss. solid s" by simp_all
  show ?case
  proof (cases "int (length cur) + int (length s) > n")
    case True
    with Cons.prems(1) have l: "chunkLoop n ss (chunks @ [trim cur]) s = (chunks', cur')" by simp
    from Cons.IH[OF l s ss] obtain new where
      "chunks' = (chunks @ [trim cur]) @ new" "[] \<notin> set new" "solid cur'" by blast
    with trim_solid[OF Cons.prems(2)] show ?thesis
      by (intro exI[of _ "trim cur # new"]) auto
  next
    case False
    with Cons.prems(1) have l: "chunkLoop n ss chunks (cur @ '' '' @ s) = (chunks', cur')" by simp
    from Cons.prems(2) have "solid (cur @ '' '' @ s)" by (auto simp: solid_def)
    from Cons.IH[OF l this ss] show ?thesis .
  qed
qed

lemma split_empty_chunk_only_first:
  "[] \<notin> set (tl (splitTextIntoChunks text n))"
proof (cases "sentences text")
  case Nil
  then show ?thesis by (simp add: splitTextIntoChunks_def)
next
  case (Cons s ss)
  then have all: "\<forall>m\<in>set (s # ss). solid m"
    using matchAll_solid[of _ "text"] by (simp add: sentences_eq)
  then have s: "solid s" and ss: "\<forall>m\<in>set ss. solid m" by simp_all
  show ?thesis
  proof (cases "int (length s) > n")
    case True
    obtain chunks' cur' where l: "chunkLoop n ss [trim []] s = (chunks', cur')"
      by (cases "chunkLoop n ss [trim []] s")
    from chunkLoop_solid[OF l s ss] obtain new where
      n: "chunks' = [trim []] @ new" "[] \<notin> set new" "solid cur'" by blast
    from n(3) have "cur' \<noteq> []" by (auto simp: solid_def)
    with Cons True l n trim_solid[OF n(3)] show ?thesis
      by (simp add: splitTextIntoChunks_def)
  next
    case False
    obtain chunks' cur' where l: "chunkLoop n ss [] ('' '' @ s) = (chunks', cur')"
      by (cases "chunkLoop n ss [] ('' '' @ s)")
    from s have "solid ('' '' @ s)" by (auto simp: solid_def)
    from chunkLoop_solid[OF l this ss] obtain new where
      n: "chunks' = new" "[] \<notin> set new" "solid cur'" by auto
    from n(3) have "cur' \<noteq> []" by (auto simp: solid_def)
    with Cons False l n trim_solid[OF n(3)] have
      "splitTextIntoChunks text n = new @ [trim cur']" "[] \<notin> set (new @ [trim cur'])"
      by (simp_all add: splitTextIntoChunks_def)
    then show ?thesis by (metis list.sel(2) list.set_sel(2))
  qed
qed

text \<open>
  What a chunk is: the buffer always holds the sentences of one group, joined by blanks, and
  a flush pushes it trimmed.
\<close>

lemma joinBlank_snoc: "g \<noteq> [] \<Longrightarrow> joinBlank (g @ [s]) = joinBlank g @ '' '' @ s"
  by (induction g rule: joinBlank.induct) simp_all

lemma trim_blank: "trim (CHR '' '' # s) = trim s"
  by (simp add: trim_def space_isWhiteSpace)

lemma buffered_trim: "buffered cur g \<Longrightarrow> trim cur = trim (joinBlank g)"
  by (auto simp: buffered_def trim_blank)

lemma buffered_append: "buffered cur g \<Longrightarrow> buffered (cur @ '' '' @ s) (g @ [s])"
  by (auto simp: buffered_def joinBlank_snoc)

lemma buffered_single: "buffered s [s]"
  by (simp add: buffered_def)

lemma buffered_empty: "buffered cur [] \<Longrightarrow> cur = []"
  by (simp add: buffered_def)

lemma joinBlank_empty: "joinBlank g = [] \<Longrightarrow> g \<noteq> [] \<Longrightarrow> hd g = []"
  by (induction g rule: joinBlank.induct) simp_all

lemma chunkLoop_groups:
  "chunkLoop n ss chunks cur = (chunks', cur') \<Longrightarrow> buffered cur g \<Longrightarrow>
   \<exists>gs g'. chunks' = chunks @ map (\<lambda>g. trim (joinBlank g)) gs \<and> buffered cur' g'
      \<and> concat gs @ g' = g @ ss \<and> [] \<notin> set (tl gs)
      \<and> (g \<noteq> [] \<or> ss \<noteq> [] \<longrightarrow> g' \<noteq> []) \<and> (g \<noteq> [] \<longrightarrow> [] \<notin> set gs)"
proof (induction ss arbitrary: chunks cur g)
  case Nil
  then show ?case by (intro exI[of _ "[]"] exI[of _ g]) simp
next
  case (Cons s ss)
  show ?case
  proof (cases "int (length cur) + int (length s) > n")
    case True
    with Cons.prems(1) have l: "chunkLoop n ss (chunks @ [trim cur]) s = (chunks', cur')" by simp
    from Cons.IH[OF l buffered_single] obtain gs g' where
      a: "chunks' = (chunks @ [trim cur]) @ map (\<lambda>g. trim (joinBlank g)) gs"
      and b: "buffered cur' g'" and c: "concat gs @ g' = [s] @ ss"
      and d: "g' \<noteq> []" and e: "[] \<notin> set gs" by blast
    from a buffered_trim[OF Cons.prems(2)]
    have "chunks' = chunks @ map (\<lambda>g. trim (joinBlank g)) (g # gs)" by simp
    moreover from c have "concat (g # gs) @ g' = g @ s # ss" by simp
    ultimately show ?thesis using b d e
      by (intro exI[of _ "g # gs"] exI[of _ g']) simp
  next
    case False
    with Cons.prems(1) have l: "chunkLoop n ss chunks (cur @ '' '' @ s) = (chunks', cur')" by simp
    from Cons.IH[OF l buffered_append[OF Cons.prems(2)]] obtain gs g' where
      a: "chunks' = chunks @ map (\<lambda>g. trim (joinBlank g)) gs"
      and b: "buffered cur' g'" and c: "concat gs @ g' = (g @ [s]) @ ss"
      and d: "g' \<noteq> []" and e: "[] \<notin> set gs" by blast
    from e have "[] \<notin> set (tl gs)" by (cases gs) auto
    with a b c d e show ?thesis
      by (intro exI[of _ gs] exI[of _ g']) simp
  qed
qed

lemma sentence_nonempty: "s \<in> set (sentences text) \<Longrightarrow> s \<noteq> []"
  using matchAll_solid[of s "text"] by (auto simp: sentences_eq solid_def)

lemma split_groups:
  "\<exists>gs. concat gs = sentences text \<and> [] \<notin> set (tl gs)
        \<and> splitTextIntoChunks text n = map (\<lambda>g. trim (joinBlank g)) gs"
proof -
  obtain chunks' cur' where l: "chunkLoop n (sentences text) [] [] = (chunks', cur')"
    by (cases "chunkLoop n (sentences text) [] []")
  have "buffered [] []" by (simp add: buffered_def)
  from chunkLoop_groups[OF l this] obtain gs g' where
    a: "chunks' = map (\<lambda>g. trim (joinBlank g)) gs" and b: "buffered cur' g'"
    and c: "concat gs @ g' = sentences text" and d: "[] \<notin> set (tl gs)"
    by auto
  show ?thesis
  proof (cases "cur' = []")
    case True
    have "g' = []"
    proof (rule ccontr)
      assume ne: "g' \<noteq> []"
      with b True have "joinBlank g' = []" by (auto simp: buffered_def)
      from joinBlank_empty[OF this ne] have "hd g' = []" .
      moreover from ne c have "hd g' \<in> set (sentences text)"
        by (metis Un_iff hd_in_set set_append)
      ultimately show False using sentence_nonempty by metis
    qed
    with True a c d l show ?thesis
      by (intro exI[of _ gs]) (simp add: splitTextIntoChunks_def)
  next
    case False
    with b have ne: "g' \<noteq> []" using buffered_empty by blast
    from d ne have "[] \<notin> set (tl (gs @ [g']))" by (cases gs) auto
    moreover from False a l buffered_trim[OF b]
    have "splitTextIntoChunks text n = map (\<lambda>g. trim (joinBlank g)) (gs @ [g'])"
      by (simp add: splitTextIntoChunks_def)
    ultimately show ?thesis using c by (intro exI[of _ "gs @ [g']"]) simp
  qed
qed

text \<open>
  C3. The claim reads: a non-empty text without any of the terminators \<open>.\<close>, \<open>!\<close>, \<open>?\<close>
  is one unit and comes back as exactly one chunk. The pattern needs a terminator, so such a
  text has no match, \<open>|| []\<close> turns the missing match into no sentence, and nothing is
  returned.
\<close>

theorem C3_counterexample:
  "''hello world'' \<noteq> [] \<and> filter terminator ''hello world'' = []
   \<and> length (splitTextIntoChunks ''hello world'' 1000) \<noteq> 1"
proof -
  have "filter terminator ''hello world'' = []" by (simp add: terminator_def)
  moreover from this have "splitTextIntoChunks ''hello world'' 1000 = []"
    by (intro split_no_terminator) (simp add: terminator_def)
  ultimately show ?thesis by simp
qed

text \<open>
  C3, amended. A text without terminator yields no chunk at all, whatever the chunk size.
  Exactly one chunk comes back when the text has at least one sentence and its sentences,
  each with the blank the loop puts in front of it, fit in the chunk size together.
\<close>

theorem C3_no_terminator_no_chunk:
  "(filter terminator text = [] \<longrightarrow> splitTextIntoChunks text chunkSize = [])
   \<and> (sentences text \<noteq> [] \<and> (\<Sum>s\<leftarrow>sentences text. int (length s) + 1) \<le> chunkSize
        \<longrightarrow> length (splitTextIntoChunks text chunkSize) = 1)"
  using split_no_terminator[of "text" chunkSize] split_one_chunk[of "text" chunkSize]
  by (simp add: filter_empty_conv)

theorem C3_no_terminator_no_chunk_witness:
  "splitTextIntoChunks ''hello world'' 1000 = []
   \<and> length (splitTextIntoChunks ''A. B. C.'' 1000) = 1"
proof -
  have h1: "filter terminator ''hello world'' = []" by (simp add: terminator_def)
  have s: "sentences ''A. B. C.'' = [''A.'', '' B.'', '' C.'']" by code_simp
  have h2: "sentences ''A. B. C.'' \<noteq> []
            \<and> (\<Sum>s\<leftarrow>sentences ''A. B. C.''. int (length s) + 1) \<le> 1000"
    unfolding s by simp
  from C3_no_terminator_no_chunk[of "''hello world''" 1000] h1
  have "splitTextIntoChunks ''hello world'' 1000 = []" by blast
  moreover from C3_no_terminator_no_chunk[of "''A. B. C.''" 1000] h2
  have "length (splitTextIntoChunks ''A. B. C.'' 1000) = 1" by blast
  ultimately show ?thesis by blast
qed

text \<open>
  C4. The claim reads: no chunk is the empty string, and a sentence longer than the chunk size
  is kept whole in its own chunk with no empty chunk before it. The loop flushes the buffer
  without looking whether it holds anything, unlike the flush behind the loop
  (\<open>if (currentChunk)\<close>): a first sentence longer than the chunk size pushes the empty
  buffer. The sentence \<open>AAAAAA.\<close> has seven characters, the chunk size is five.
\<close>

theorem C4_empty_chunk_before_long_sentence:
  "splitTextIntoChunks ''AAAAAA.'' 5 = ['''', ''AAAAAA.'']"
  by code_simp

text \<open>
  C10. The claim reads: what stands behind the last terminator appears in no chunk, so the
  concatenation of the chunks equals the concatenation of the sentences. The first part
  holds. The equality does not: the loop puts a blank in front of every sentence it appends
  to the buffer and trims the buffer when it flushes it, so for \<open>One. Two! and three\<close>
  the one chunk has two blanks where the sentences \<open>One.\<close> and \<open> Two!\<close> have one.
\<close>

theorem C10_counterexample:
  "sentences ''One. Two! and three'' = [''One.'', '' Two!'']
   \<and> splitTextIntoChunks ''One. Two! and three'' 1000 = [''One.  Two!'']
   \<and> concat (splitTextIntoChunks ''One. Two! and three'' 1000)
       \<noteq> concat (sentences ''One. Two! and three'')"
  by code_simp

text \<open>
  C10, amended. What stands behind the last terminator of the input reaches no chunk: the
  chunks of a text that is empty or ends in a terminator stay the same when a fragment
  without terminator is appended. The chunks are made of the sentences and of nothing
  else: the sentences fall, in their order, into consecutive groups, of which only the first
  can be empty, and each chunk is the sentences of one group, joined by one blank between
  two of them, and trimmed. The concatenation of the chunks and that of the sentences
  therefore agree in everything but white space.
\<close>

theorem C10_trailing_fragment_dropped:
  assumes "\<forall>c\<in>set frag. \<not> terminator c"
    and "text = [] \<or> terminator (last text)"
  shows "splitTextIntoChunks (text @ frag) chunkSize = splitTextIntoChunks text chunkSize
     \<and> (\<exists>gs. concat gs = sentences text \<and> [] \<notin> set (tl gs)
            \<and> splitTextIntoChunks (text @ frag) chunkSize = map (\<lambda>g. trim (joinBlank g)) gs)
     \<and> filter (\<lambda>c. \<not> isWhiteSpace c) (concat (splitTextIntoChunks (text @ frag) chunkSize))
         = filter (\<lambda>c. \<not> isWhiteSpace c) (concat (sentences text))"
proof -
  from assms have "sentences (text @ frag) = sentences text"
    by (simp add: sentences_eq matchAll_fragment)
  then have same: "splitTextIntoChunks (text @ frag) chunkSize = splitTextIntoChunks text chunkSize"
    by (simp add: splitTextIntoChunks_def)
  from split_groups[of "text" chunkSize] same
  have "\<exists>gs. concat gs = sentences text \<and> [] \<notin> set (tl gs)
            \<and> splitTextIntoChunks (text @ frag) chunkSize = map (\<lambda>g. trim (joinBlank g)) gs"
    by simp
  with same show ?thesis by (simp add: split_letters)
qed

theorem C10_trailing_fragment_dropped_witness:
  "splitTextIntoChunks (''One. Two!'' @ '' and three'') 1000 = splitTextIntoChunks ''One. Two!'' 1000
   \<and> (\<exists>gs. concat gs = sentences ''One. Two!'' \<and> [] \<notin> set (tl gs)
          \<and> splitTextIntoChunks (''One. Two!'' @ '' and three'') 1000
              = map (\<lambda>g. trim (joinBlank g)) gs)
   \<and> filter (\<lambda>c. \<not> isWhiteSpace c)
        (concat (splitTextIntoChunks (''One. Two!'' @ '' and three'') 1000))
      = filter (\<lambda>c. \<not> isWhiteSpace c) (concat (sentences ''One. Two!''))"
proof -
  have h1: "\<forall>c\<in>set '' and three''. \<not> terminator c" by (simp add: terminator_def)
  have h2: "''One. Two!'' = [] \<or> terminator (last ''One. Two!'')" by (simp add: terminator_def)
  show ?thesis by (rule C10_trailing_fragment_dropped[OF h1 h2])
qed

section \<open>Properties of the merger\<close>

lemma orEmpty_simps [simp]: "orEmpty None = []" "orEmpty (Some xs) = xs"
  by (simp_all add: orEmpty_def)

lemma setContent_fields [simp]:
  "tid (setContent m c) = tid m" "title (setContent m c) = title m"
  "content (setContent m c) = c" "level (setContent m c) = level m"
  "children (setContent m c) = children m"
  by (simp_all add: setContent_def)

lemma find_None_key: "(find (\<lambda>e. key e = k) ks = None) = (k \<notin> key ` set ks)"
  by (auto simp: find_None_iff)

lemma mergeChild_children:
  assumes "children m = Some ks"
  shows "children (mergeChild m c) = Some (addChild ks c)"
proof (cases "key c \<in> key ` set ks")
  case True
  then have "find (\<lambda>e. key e = key c) ks \<noteq> None"
    using find_None_key[of "key c" ks] by blast
  then obtain e where "find (\<lambda>e. key e = key c) ks = Some e" by blast
  with True assms show ?thesis by (simp add: mergeChild_def addChild_def)
next
  case False
  then have "find (\<lambda>e. key e = key c) ks = None"
    using find_None_key[of "key c" ks] by blast
  with False assms show ?thesis
    by (simp add: mergeChild_def addChild_def pushChild_def relabel_def)
qed

lemma mergeChild_fields:
  "content (mergeChild m c) = content m" "tid (mergeChild m c) = tid m"
  "title (mergeChild m c) = title m" "level (mergeChild m c) = level m"
  by (simp_all add: mergeChild_def pushChild_def split: option.splits)

lemma foldl_mergeChild_children:
  "children m = Some ks \<Longrightarrow> children (foldl mergeChild m cs) = Some (foldl addChild ks cs)"
  by (induction cs arbitrary: m ks) (simp_all add: mergeChild_children)

lemma foldl_mergeChild_fields:
  "content (foldl mergeChild m cs) = content m" "tid (foldl mergeChild m cs) = tid m"
  "title (foldl mergeChild m cs) = title m" "level (foldl mergeChild m cs) = level m"
  by (induction cs arbitrary: m) (simp_all add: mergeChild_fields)

lemma mergeTopic_children:
  "children m = Some ks \<Longrightarrow>
   children (mergeTopic m t) = Some (foldl addChild ks (orEmpty (children t)))"
  by (cases "children t")
     (simp_all add: mergeTopic_def Let_def foldl_mergeChild_children)

lemma mergeTopic_content:
  "content (mergeTopic m t) = (if content m = [] then content t else content m)"
  by (cases "children t")
     (simp_all add: mergeTopic_def Let_def foldl_mergeChild_fields)

lemma mergeTopic_fields:
  "tid (mergeTopic m t) = tid m" "title (mergeTopic m t) = title m"
  "level (mergeTopic m t) = level m"
  by (cases "children t"; simp add: mergeTopic_def Let_def foldl_mergeChild_fields)+

lemma foldl_mergeTopic_children:
  "children m = Some ks \<Longrightarrow>
   children (foldl mergeTopic m ts) = Some (foldl addChild ks (allChildren ts))"
  by (induction ts arbitrary: m ks) (simp_all add: allChildren_def mergeTopic_children)

lemma foldl_mergeTopic_content:
  "content (foldl mergeTopic m ts)
   = (if content m \<noteq> [] then content m
      else case find (\<lambda>t. content t \<noteq> []) ts of None \<Rightarrow> [] | Some t \<Rightarrow> content t)"
  by (induction ts arbitrary: m) (simp_all add: mergeTopic_content)

lemma foldl_mergeTopic_fields:
  "tid (foldl mergeTopic m ts) = tid m" "title (foldl mergeTopic m ts) = title m"
  "level (foldl mergeTopic m ts) = level m"
  by (induction ts arbitrary: m) (simp_all add: mergeTopic_fields)

lemma key_relabel: "key (relabel n c) = key c"
  by (simp add: relabel_def)

lemma foldl_addChild:
  "foldl addChild ks cs
   = ks @ numbered (length ks + 1) (filter (\<lambda>c. key c \<notin> key ` set ks) (firstSeen cs))"
proof (induction cs arbitrary: ks)
  case Nil
  show ?case by simp
next
  case (Cons c cs)
  show ?case
  proof (cases "key c \<in> key ` set ks")
    case True
    then have "filter (\<lambda>d. key d \<notin> key ` set ks) (filter (\<lambda>d. key d \<noteq> key c) (firstSeen cs))
             = filter (\<lambda>d. key d \<notin> key ` set ks) (firstSeen cs)"
      by (auto intro!: filter_cong)
    with True Cons.IH[of ks] show ?thesis by (simp add: addChild_def)
  next
    case False
    let ?ks = "ks @ [relabel (length ks + 1) c]"
    have "filter (\<lambda>d. key d \<notin> key ` set ks) (filter (\<lambda>d. key d \<noteq> key c) (firstSeen cs))
             = filter (\<lambda>d. key d \<notin> key ` set ?ks) (firstSeen cs)"
      by (auto intro!: filter_cong simp: key_relabel)
    with False Cons.IH[of ?ks] show ?thesis by (simp add: addChild_def)
  qed
qed

lemma mergeTopics_children:
  "children (mergeTopics ts) = Some (numbered 1 (firstSeen (allChildren ts)))"
  by (simp add: mergeTopics_def foldl_mergeTopic_children foldl_addChild)

lemma mergeTopics_root:
  "tid (mergeTopics ts) = Some ''root''" "title (mergeTopics ts) = ''Main Topic''"
  "level (mergeTopics ts) = Some 0"
  by (simp_all add: mergeTopics_def foldl_mergeTopic_fields)

lemma distinct_firstSeen: "distinct (map key (firstSeen cs))"
proof (induction cs)
  case Nil show ?case by simp
next
  case (Cons c cs)
  have "distinct (map key (filter (\<lambda>d. key d \<noteq> key c) (firstSeen cs)))"
    using Cons.IH by (rule distinct_map_filter)
  then show ?case by auto
qed

lemma numbered_maps:
  "map title (numbered n cs) = map title cs"
  "map content (numbered n cs) = map content cs"
  "map level (numbered n cs) = map (\<lambda>c. Some 1) cs"
  "map children (numbered n cs) = map (\<lambda>c. Some (orEmpty (children c))) cs"
  "length (numbered n cs) = length cs"
  by (induction cs arbitrary: n) (simp_all add: relabel_def)

lemma numbered_keys: "map key (numbered n cs) = map key cs"
  by (induction cs arbitrary: n) (simp_all add: relabel_def)

lemma numbered_ids:
  "map tid (numbered n cs) = map (\<lambda>i. Some (''topic-'' @ showNat i)) [n ..< n + length cs]"
proof (induction cs arbitrary: n)
  case Nil show ?case by simp
next
  case (Cons c cs)
  have "[n ..< n + length (c # cs)] = n # [Suc n ..< Suc n + length cs]"
    by (simp add: upt_rec)
  with Cons.IH[of "Suc n"] show ?case by (simp add: relabel_def)
qed

lemma mergeTopics_content:
  "content (mergeTopics ts)
     = (case find (\<lambda>t. content t \<noteq> []) ts of None \<Rightarrow> [] | Some t \<Rightarrow> content t)"
  by (simp add: mergeTopics_def foldl_mergeTopic_content)

text \<open>
  C5. The direct children of the merged root, for any sequence of input trees: no two of
  them have titles that are equal without regard to case; their ids are \<open>topic-1\<close> to
  \<open>topic-n\<close> in their order; each has level 1; and they are, in this order, the first
  occurrences among the children of the input trees, each with its own title, content and
  children (a child without \<open>children\<close> gets the empty sequence).
\<close>

theorem C5_merged_children:
  "\<exists>ks. children (mergeTopics topics) = Some ks
     \<and> distinct (map (\<lambda>c. toLowerCase (title c)) ks)
     \<and> map tid ks = map (\<lambda>i. Some (''topic-'' @ showNat i)) [1 ..< Suc (length ks)]
     \<and> map level ks = map (\<lambda>c. Some 1) ks
     \<and> map title ks = map title (firstSeen (allChildren topics))
     \<and> map content ks = map content (firstSeen (allChildren topics))
     \<and> map children ks
         = map (\<lambda>c. Some (orEmpty (children c))) (firstSeen (allChildren topics))"
proof -
  let ?fs = "firstSeen (allChildren topics)"
  let ?ks = "numbered 1 ?fs"
  have "distinct (map key ?ks)"
    by (simp only: numbered_keys distinct_firstSeen)
  moreover have "map tid ?ks = map (\<lambda>i. Some (''topic-'' @ showNat i)) [1 ..< Suc (length ?ks)]"
    using numbered_ids[of 1 ?fs] by (simp add: numbered_maps)
  moreover have "map level ?ks = map (\<lambda>c. Some 1) ?ks"
    by (simp add: numbered_maps map_replicate_const)
  ultimately show ?thesis
    by (intro exI[of _ ?ks]) (simp add: mergeTopics_children numbered_maps)
qed

theorem C5_merged_children_witness:
  "\<exists>ks. children (mergeTopics [firstTopic, secondTopic]) = Some ks
     \<and> map title ks = [''A'', ''B'', ''C'']
     \<and> map tid ks = [Some ''topic-1'', Some ''topic-2'', Some ''topic-3'']
     \<and> map children ks = [Some [], Some [], Some []]"
proof -
  let ?ts = "[firstTopic, secondTopic]"
  have fs: "firstSeen (allChildren ?ts)
      = [Topic None ''A'' ''one'' None None, Topic None ''B'' ''two'' None (Some []),
         Topic None ''C'' ''four'' None None]"
    by code_simp
  have ids: "map (\<lambda>i. Some (''topic-'' @ showNat i)) [1 ..< Suc 3]
      = [Some ''topic-1'', Some ''topic-2'', Some ''topic-3'']"
    by code_simp
  from C5_merged_children[of ?ts] obtain ks where
    ks: "children (mergeTopics ?ts) = Some ks"
    and i: "map tid ks = map (\<lambda>i. Some (''topic-'' @ showNat i)) [1 ..< Suc (length ks)]"
    and t: "map title ks = map title (firstSeen (allChildren ?ts))"
    and c: "map children ks
            = map (\<lambda>c. Some (orEmpty (children c))) (firstSeen (allChildren ?ts))"
    by blast
  from t have "length (map title ks) = 3" unfolding fs by simp
  then have len: "length ks = 3" by simp
  from ks i t c show ?thesis unfolding len ids fs by simp
qed

text \<open>
  C6. The content of the merged root is the content of the first input tree whose content
  is not empty, and the empty string when there is none.
\<close>

theorem C6_merged_content:
  "content (mergeTopics topics)
     = (case find (\<lambda>t. content t \<noteq> []) topics of None \<Rightarrow> [] | Some t \<Rightarrow> content t)"
  by (simp add: mergeTopics_def foldl_mergeTopic_content)

theorem C6_merged_content_witness:
  "content (mergeTopics [firstTopic, secondTopic, chainTopic]) = ''X''"
proof -
  have "find (\<lambda>t. content t \<noteq> []) [firstTopic, secondTopic, chainTopic] = Some secondTopic"
    by (simp add: firstTopic_def secondTopic_def)
  with C6_merged_content[of "[firstTopic, secondTopic, chainTopic]"] show ?thesis
    by (simp add: secondTopic_def)
qed

section \<open>Properties of the layout\<close>

lemma layout_nodes:
  "processNode node parentId x y g = Inr g' \<Longrightarrow>
     nodes g' = nodes g @ map (\<lambda>(n, x, y). nodeData n x y) (preorder node x y)"
  "forEachChild cs i parentId startX y g = Inr g' \<Longrightarrow>
     startX = parentX - (int k - 1) * 100 \<Longrightarrow>
     nodes g' = nodes g @ map (\<lambda>(n, x, y). nodeData n x y) (preorderChildren cs i k parentX y)"
proof (induction node parentId x y g and cs i parentId startX y g
       arbitrary: g' and g' k parentX rule: processNode_forEachChild.induct)
  case (1 node parentId x y g)
  show ?case
  proof (cases "children node")
    case None
    with "1.prems" show ?thesis by (simp add: processNode.simps)
  next
    case (Some cs)
    let ?g1 = "g\<lparr>nodes := nodes g @ [nodeData node x y]\<rparr>"
    let ?g2 = "if truthy parentId
                then ?g1\<lparr>edges := edges ?g1 @ [edgeData (showId parentId) node]\<rparr> else ?g1"
    let ?sx = "x - (int (length cs) - 1) * childSpacing div 2"
    from "1.prems" Some have run: "forEachChild cs 0 (tid node) ?sx y ?g2 = Inr g'"
      by (simp add: processNode.simps Let_def)
    have sx: "?sx = x - (int (length cs) - 1) * 100" by (simp add: childSpacing_def)
    from "1.IH"[OF refl refl Some run sx]
    have "nodes g' = nodes ?g2 @ map (\<lambda>(n, x, y). nodeData n x y)
                                   (preorderChildren cs 0 (length cs) x y)" .
    with Some show ?thesis by (simp add: preorder.simps)
  qed
next
  case (2 index parentId startX y g)
  then show ?case by simp
next
  case (3 child rest index parentId startX y g)
  from "3.prems"(1) obtain g1 where
    c: "processNode child parentId (startX + int index * childSpacing) (y + 150) g = Inr g1"
    and r: "forEachChild rest (index + 1) parentId startX y g1 = Inr g'"
    by (auto split: sum.splits)
  from "3.IH"(1)[OF c] have n1: "nodes g1 = nodes g
      @ map (\<lambda>(n, x, y). nodeData n x y)
          (preorder child (startX + int index * childSpacing) (y + 150))" .
  from "3.IH"(2)[OF c r "3.prems"(2)] have n2: "nodes g' = nodes g1
      @ map (\<lambda>(n, x, y). nodeData n x y) (preorderChildren rest (index + 1) k parentX y)" .
  from n1 n2 "3.prems"(2) show ?case by (simp add: childSpacing_def)
qed

lemma hierarchyToMindMap_nodes:
  "hierarchyToMindMap t = Inr g \<Longrightarrow>
   nodes g = map (\<lambda>(n, x, y). nodeData n x y) (preorder t 0 0)"
  using layout_nodes(1)[of t None 0 0 "\<lparr>nodes = [], edges = []\<rparr>" g]
  by (simp add: hierarchyToMindMap_def)

lemma layout_total:
  "complete node \<Longrightarrow> \<exists>g'. processNode node parentId x y g = Inr g'"
  "\<forall>c\<in>set cs. complete c \<Longrightarrow> \<exists>g'. forEachChild cs i parentId startX y g = Inr g'"
proof (induction node parentId x y g and cs i parentId startX y g
       rule: processNode_forEachChild.induct)
  case (1 node parentId x y g)
  from "1.prems" obtain cs where cs: "children node = Some cs" and all: "\<forall>c\<in>set cs. complete c"
    by (cases node) (auto split: option.splits)
  from "1.IH"[OF refl refl cs all] cs show ?case
    by (simp add: processNode.simps Let_def)
next
  case (2 index parentId startX y g)
  show ?case by simp
next
  case (3 child rest index parentId startX y g)
  from "3.prems" have c: "complete child" and r: "\<forall>c\<in>set rest. complete c" by simp_all
  from "3.IH"(1)[OF c] obtain g1 where
    g1: "processNode child parentId (startX + int index * childSpacing) (y + 150) g = Inr g1"
    by blast
  from "3.IH"(2)[OF g1 r] g1 show ?case by simp
qed

lemma layout_edges:
  "processNode node parentId x y g = Inr g' \<Longrightarrow> parentsIdentified node \<Longrightarrow>
     int (length (edges g')) - int (length (edges g))
     = int (length (nodes g')) - int (length (nodes g)) - (if truthy parentId then 0 else 1)"
  "forEachChild cs i parentId startX y g = Inr g' \<Longrightarrow> \<forall>c\<in>set cs. parentsIdentified c \<Longrightarrow>
     cs = [] \<or> truthy parentId \<Longrightarrow>
     int (length (edges g')) - int (length (edges g))
     = int (length (nodes g')) - int (length (nodes g))"
proof (induction node parentId x y g and cs i parentId startX y g
       arbitrary: g' and g' rule: processNode_forEachChild.induct)
  case (1 node parentId x y g)
  show ?case
  proof (cases "children node")
    case None
    with "1.prems" show ?thesis by (simp add: processNode.simps)
  next
    case (Some cs)
    let ?g1 = "g\<lparr>nodes := nodes g @ [nodeData node x y]\<rparr>"
    let ?g2 = "if truthy parentId
                then ?g1\<lparr>edges := edges ?g1 @ [edgeData (showId parentId) node]\<rparr> else ?g1"
    let ?sx = "x - (int (length cs) - 1) * childSpacing div 2"
    from "1.prems" Some have run: "forEachChild cs 0 (tid node) ?sx y ?g2 = Inr g'"
      by (simp add: processNode.simps Let_def)
    from "1.prems"(2) Some have a: "\<forall>c\<in>set cs. parentsIdentified c"
      and b: "cs = [] \<or> truthy (tid node)"
      by (cases node; simp)+
    from "1.IH"[OF refl refl Some run a b] show ?thesis
      by (cases "truthy parentId") simp_all
  qed
next
  case (2 index parentId startX y g)
  then show ?case by simp
next
  case (3 child rest index parentId startX y g)
  from "3.prems"(1) obtain g1 where
    c: "processNode child parentId (startX + int index * childSpacing) (y + 150) g = Inr g1"
    and r: "forEachChild rest (index + 1) parentId startX y g1 = Inr g'"
    by (auto split: sum.splits)
  from "3.prems" have t: "truthy parentId" and pc: "parentsIdentified child"
    and pr: "\<forall>c\<in>set rest. parentsIdentified c" by simp_all
  from "3.IH"(1)[OF c pc] t
  have e1: "int (length (edges g1)) - int (length (edges g))
            = int (length (nodes g1)) - int (length (nodes g))" by simp
  from "3.IH"(2)[OF c r pr] t
  have e2: "int (length (edges g')) - int (length (edges g1))
            = int (length (nodes g')) - int (length (nodes g1))" by simp
  from e1 e2 show ?case by simp
qed

lemma hierarchyToMindMap_edge_count:
  assumes "hierarchyToMindMap t = Inr g" "parentsIdentified t"
  shows "int (length (edges g)) = int (length (nodes g)) - 1"
  using layout_edges(1)[of t None 0 0 "\<lparr>nodes = [], edges = []\<rparr>" g] assms
  by (simp add: hierarchyToMindMap_def truthy_def)

text \<open>
  The ids that the merger assigns are pairwise distinct: when no child of an input tree has
  children of its own, the nodes of the graph are the root and its numbered children, and
  no two of them share an id.
\<close>

lemma readNat_showNat: "readNat (showNat n) = n"
proof (induction n rule: showNat.induct)
  case (1 n)
  show ?case
  proof (cases "n < 10")
    case True
    then show ?thesis by (subst showNat.simps) (simp add: readNat_def)
  next
    case False
    have "n mod 10 < 10" by simp
    then have d: "of_char (char_of (48 + n mod 10)) = (48 + n mod 10 :: nat)"
      by (simp add: of_char_of)
    from False "1.IH" have "readNat (showNat (n div 10)) = n div 10" by simp
    with False d show ?thesis
      by (subst showNat.simps) (simp add: readNat_def)
  qed
qed

lemma showNat_inj: "showNat m = showNat n \<Longrightarrow> m = n"
  by (metis readNat_showNat)

lemma preorderChildren_leaves:
  "\<forall>c\<in>set cs. orEmpty (children c) = [] \<Longrightarrow>
   map fst (preorderChildren cs i k px py) = cs"
  by (induction cs arbitrary: i) (simp_all add: preorder.simps)

lemma node_id_nodeData: "node_id (nodeData n x y) = tid n"
  by (simp add: nodeData_def)

lemma numbered_leaves:
  "\<forall>c\<in>set cs. orEmpty (children c) = [] \<Longrightarrow>
   \<forall>c\<in>set (numbered n cs). orEmpty (children c) = []"
  by (induction cs arbitrary: n) (simp_all add: relabel_def)

lemma set_firstSeen: "set (firstSeen cs) \<subseteq> set cs"
  by (induction cs) auto

lemma numbered_complete:
  "\<forall>c\<in>set cs. orEmpty (children c) = [] \<Longrightarrow> \<forall>c\<in>set (numbered n cs). complete c"
proof (induction cs arbitrary: n)
  case Nil show ?case by simp
next
  case (Cons c cs)
  then show ?case by (simp add: relabel_def)
qed

lemma flat_merge_ids_distinct:
  assumes flat: "\<forall>c\<in>set (allChildren topics). orEmpty (children c) = []"
  shows "\<exists>g. hierarchyToMindMap (mergeTopics topics) = Inr g \<and> distinct (map node_id (nodes g))"
proof -
  let ?m = "mergeTopics topics"
  let ?fs = "firstSeen (allChildren topics)"
  let ?ks = "numbered 1 ?fs"
  have ch: "children ?m = Some ?ks" by (rule mergeTopics_children)
  from flat set_firstSeen[of "allChildren topics"]
  have fl: "\<forall>c\<in>set ?fs. orEmpty (children c) = []" by blast
  have "complete ?m"
    using ch numbered_complete[OF fl, of 1] by (cases ?m) simp
  then obtain g where g: "hierarchyToMindMap ?m = Inr g"
    unfolding hierarchyToMindMap_def using layout_total(1) by blast
  have "map node_id (nodes g) = map (\<lambda>(n, x, y). tid n) (preorder ?m 0 0)"
    using hierarchyToMindMap_nodes[OF g] by (simp add: case_prod_unfold node_id_nodeData)
  also have "\<dots> = map tid (map fst (preorder ?m 0 0))"
    by (simp add: case_prod_unfold)
  also have "map fst (preorder ?m 0 0) = ?m # ?ks"
    using ch preorderChildren_leaves[OF numbered_leaves[OF fl, of 1]]
    by (simp add: preorder.simps)
  finally have ids: "map node_id (nodes g)
      = Some ''root'' # map (\<lambda>i. Some (''topic-'' @ showNat i)) [1 ..< 1 + length ?fs]"
    by (simp add: mergeTopics_root numbered_ids)
  have "inj (\<lambda>i. Some (''topic-'' @ showNat i))"
    by (rule injI) (simp add: showNat_inj)
  then have "distinct (map (\<lambda>i. Some (''topic-'' @ showNat i)) [1 ..< 1 + length ?fs])"
    by (simp add: distinct_map inj_on_subset[OF _ subset_UNIV])
  with ids g show ?thesis by auto
qed

text \<open>
  C7. A tree in which every node has its sequence of children is laid out, and whenever the
  layout returns a graph, its nodes are those of the tree in pre-order, the root at
  \<open>(0, 0)\<close> and child \<open>i\<close> of a node with \<open>k\<close> children at
  \<open>x = parentX - (k - 1) * 100 + i * 200\<close>, \<open>y = parentY + 150\<close>.
\<close>

theorem C7_layout_positions:
  "(complete t \<longrightarrow> (\<exists>g. hierarchyToMindMap t = Inr g))
   \<and> (\<forall>g. hierarchyToMindMap t = Inr g \<longrightarrow>
          nodes g = map (\<lambda>(n, x, y). nodeData n x y) (preorder t 0 0)
          \<and> node_position (hd (nodes g)) = \<lparr>pos_x = 0, pos_y = 0\<rparr>)"
proof (intro conjI impI allI)
  assume "complete t"
  then show "\<exists>g. hierarchyToMindMap t = Inr g"
    unfolding hierarchyToMindMap_def by (rule layout_total(1))
next
  fix g assume "hierarchyToMindMap t = Inr g"
  then show "nodes g = map (\<lambda>(n, x, y). nodeData n x y) (preorder t 0 0)"
    by (rule hierarchyToMindMap_nodes)
  then show "node_position (hd (nodes g)) = \<lparr>pos_x = 0, pos_y = 0\<rparr>"
    by (simp add: preorder.simps nodeData_def)
qed

theorem C7_layout_positions_witness:
  "\<exists>g. hierarchyToMindMap pairTopic = Inr g
     \<and> map node_position (nodes g)
         = [\<lparr>pos_x = 0, pos_y = 0\<rparr>, \<lparr>pos_x = - 100, pos_y = 150\<rparr>, \<lparr>pos_x = 100, pos_y = 150\<rparr>]"
proof -
  have c: "complete pairTopic" by (simp add: pairTopic_def)
  have p: "map (\<lambda>(n, x, y). node_position (nodeData n x y)) (preorder pairTopic 0 0)
      = [\<lparr>pos_x = 0, pos_y = 0\<rparr>, \<lparr>pos_x = - 100, pos_y = 150\<rparr>, \<lparr>pos_x = 100, pos_y = 150\<rparr>]"
    by code_simp
  from C7_layout_positions[of pairTopic] c obtain g where
    g: "hierarchyToMindMap pairTopic = Inr g" by blast
  with C7_layout_positions[of pairTopic]
  have "nodes g = map (\<lambda>(n, x, y). nodeData n x y) (preorder pairTopic 0 0)" by blast
  then have "map node_position (nodes g)
      = map (\<lambda>(n, x, y). node_position (nodeData n x y)) (preorder pairTopic 0 0)"
    by (simp add: case_prod_unfold)
  with g p show ?thesis by simp
qed

text \<open>
  C1. The claim reads: for a merged tree of any depth the graph has one edge less than it
  has nodes. The merger gives ids to the root and to its direct children only, and the
  layout emits an edge only for a parent id that is neither missing nor empty: the children
  of a node below level 1 get their nodes and no edges. The merged tree here is the chain
  root, \<open>A\<close>, \<open>B\<close>, \<open>C\<close>: four nodes, and two edges where the claim has three.
\<close>

theorem C1_edge_missing_below_level_2:
  "(case hierarchyToMindMap (mergeTopics [chainTopic]) of
      Inl e \<Rightarrow> None
    | Inr g \<Rightarrow> Some (length (nodes g), map edge_id (edges g)))
   = Some (4, [''root-topic-1'', ''topic-1-undefined''])"
  by code_simp

text \<open>
  C2. The claim reads: the node ids of a response are pairwise distinct, also below
  level 1. The merger leaves the nodes below level 1 as the model sent them, without id:
  the two sub-subtopics of the tree here both reach the graph with no id at all.
\<close>

theorem C2_ids_missing_below_level_1:
  "(case hierarchyToMindMap (mergeTopics [forkTopic]) of
      Inl e \<Rightarrow> None
    | Inr g \<Rightarrow> Some (map node_id (nodes g), distinct (map node_id (nodes g))))
   = Some ([Some ''root'', Some ''topic-1'', None, None], False)"
  by code_simp

section \<open>Properties of the extractor and of the endpoint\<close>









text \<open>
  C9. The claim reads: without the credential a request with content is answered with
  status 500 before any outside call, and the body carries \<open>error\<close>, \<open>details\<close> and
  \<open>type\<close>. The guard answers with a body of its own, which has \<open>error\<close> and \<open>details\<close>
  and no \<open>type\<close>; only the body built in the \<open>catch\<close> has all three.
\<close>

theorem C9_counterexample:
  "status (fst (process unconfiguredWorld
                  \<lparr>req_content = Some ''Some text.'', req_type = Some ''text''\<rparr>)) = 500
   \<and> errtype (body (fst (process unconfiguredWorld
                  \<lparr>req_content = Some ''Some text.'', req_type = Some ''text''\<rparr>))) = None"
  by (simp add: process_def unconfiguredWorld_def truthy_def)

text \<open>
  C9, amended. Without the credential (missing or empty) a request with content is answered
  with status 500 and the body \<open>{error: 'Server configuration error', details: 'API key is
  not configured'}\<close>, which has no \<open>type\<close>; no outside call has been made.
\<close>

theorem C9_unconfigured_key:
  assumes "\<not> truthy (GEMINI_API_KEY w)" and "req_content req = Some input" and "input \<noteq> []"
  shows "process w req
     = (\<lparr>status = 500,
         body = ErrorBody ''Server configuration error'' (Some ''API key is not configured'')
                  None\<rparr>,
        [])"
  using assms by (simp add: process_def)

theorem C9_unconfigured_key_witness:
  "process unconfiguredWorld \<lparr>req_content = Some ''https://example.org'', req_type = Some ''url''\<rparr>
     = (\<lparr>status = 500,
         body = ErrorBody ''Server configuration error'' (Some ''API key is not configured'')
                  None\<rparr>,
        [])"
proof -
  have k: "\<not> truthy (GEMINI_API_KEY unconfiguredWorld)"
    by (simp add: unconfiguredWorld_def truthy_def)
  have c: "req_content \<lparr>req_content = Some ''https://example.org'', req_type = Some ''url''\<rparr>
           = Some ''https://example.org''" by simp
  have n: "''https://example.org'' \<noteq> []" by simp
  from C9_unconfigured_key[OF k c n] show ?thesis .
qed

end
